theory Spec2Isabelle
  imports Complex_Main "HOL-Library.AList"
begin

section \<open>Data model\<close>

text \<open>
  The embedding follows \<^verbatim>\<open>agents.py\<close>, \<^verbatim>\<open>generator.py\<close> and \<^verbatim>\<open>simulation.py\<close>.
  Python floats are modelled as real numbers: arithmetic is exact, rounding, overflow,
  infinities and NaN are not modelled. Python integers are \<^typ>\<open>int\<close>, strings are
  \<^typ>\<open>string\<close>. An exception is a value of type \<open>error\<close>; a function that can raise
  returns a sum whose left injection is the exception.
\<close>

datatype error = ValueError | TypeError | ZeroDivisionError | KeyError

datatype AgentType = HONEST | COLLUSION | WHALE | SYBIL | EMOTIONAL_BIAS | SYSTEMATIC_BIAS

text \<open>
  The dataclass \<^verbatim>\<open>Agent\<close>. The field \<^verbatim>\<open>honesty_threshold\<close> defaults to \<^verbatim>\<open>None\<close>,
  hence the option.
\<close>

record Agent =
  agent_id :: int
  agent_type :: AgentType
  stake :: real
  original_stake :: real
  amount_slashed :: real
  honesty_threshold :: "real option"

text \<open>
  Construction \<^verbatim>\<open>Agent(agent_id, agent_type, stake, honesty_threshold=...)\<close> followed by
  \<^verbatim>\<open>__post_init__\<close>, which sets \<^verbatim>\<open>original_stake = stake\<close> and \<^verbatim>\<open>amount_slashed = 0.0\<close>.
\<close>

definition mk_agent :: "int \<Rightarrow> AgentType \<Rightarrow> real \<Rightarrow> real option \<Rightarrow> Agent" where
  "mk_agent i ty s thr =
     \<lparr>agent_id = i, agent_type = ty, stake = s, original_stake = s,
      amount_slashed = 0, honesty_threshold = thr\<rparr>"

text \<open>The dataclass \<^verbatim>\<open>GovernanceMechanism\<close> of \<^verbatim>\<open>generator.py\<close>.\<close>

record GovernanceMechanism =
  voting_method :: string
  stake_method :: string
  slashing_method :: string
  consensus_threshold :: real
  slashing_rate :: real
  sybil_resistance :: real
  max_voting_power :: real

record Proposal =
  proposal_id :: int
  quality :: real

definition is_objectively_good :: "Proposal \<Rightarrow> bool" where
  "is_objectively_good p = (quality p \<ge> 0.5)"

text \<open>
  A Python dict keeps its keys in insertion order, and assigning to a key that is present
  replaces the value in place. This is \<^const>\<open>AList.update\<close> on an association list.
\<close>

record VoteResult =
  proposal :: Proposal
  passed :: bool
  total_voting_power :: real
  yes_voting_power :: real
  no_voting_power :: real
  votes_cast :: "(int \<times> bool) list"
  agents_slashed :: "int list"
  correct_outcome :: bool

section \<open>The random source\<close>

text \<open>
  The global generator behind \<^verbatim>\<open>random.random()\<close> is the stream of the numbers it will
  return. A call returns the head and leaves the tail.
\<close>

type_synonym rng = "nat \<Rightarrow> real"

definition random_random :: "rng \<Rightarrow> real \<times> rng" where
  "random_random g = (g 0, \<lambda>n. g (Suc n))"

text \<open>A source that returns the same number at every call.\<close>

definition const_rng :: "real \<Rightarrow> rng" where
  "const_rng r = (\<lambda>n. r)"

section \<open>Agents\<close>

text \<open>\<^verbatim>\<open>Agent.get_effective_stake\<close>\<close>

definition get_effective_stake :: "Agent \<Rightarrow> real" where
  "get_effective_stake a = max 0 (stake a - amount_slashed a)"

text \<open>\<^verbatim>\<open>Agent.apply_slashing\<close>; the agent is mutated, the model returns the new agent.\<close>

definition Agent_apply_slashing :: "Agent \<Rightarrow> real \<Rightarrow> Agent" where
  "Agent_apply_slashing a slash_amount =
     (let a1 = a\<lparr>amount_slashed := amount_slashed a + slash_amount\<rparr>
      in if amount_slashed a1 > stake a1 then a1\<lparr>amount_slashed := stake a1\<rparr> else a1)"

text \<open>
  \<^verbatim>\<open>Agent._honest_vote\<close>. Comparing a float with \<^verbatim>\<open>None\<close> raises \<^verbatim>\<open>TypeError\<close>; a float
  division whose divisor is zero raises \<^verbatim>\<open>ZeroDivisionError\<close>.
\<close>

definition honest_vote :: "Agent \<Rightarrow> real \<Rightarrow> rng \<Rightarrow> error + (bool \<times> rng)" where
  "honest_vote a q g =
     (case honesty_threshold a of
        None \<Rightarrow> Inl TypeError
      | Some x \<Rightarrow>
          if q > x then Inr (True, g)
          else if 0.4 < q \<and> q < x then
            (if x = 0 then Inl ZeroDivisionError
             else let probability = q / x;
                      (r, g') = random_random g
                  in Inr (r < probability, g'))
          else if q < 0.4 then
            (if x + 0.5 = 0 then Inl ZeroDivisionError
             else let probability = (q - 0.2) / (x + 0.5);
                      probability = max 0 probability;
                      (r, g') = random_random g
                  in Inr (r < probability, g'))
          else if q = 0.4 then
            (if x + 0.5 = 0 then Inl ZeroDivisionError
             else let probability = (q - 0.2) / (x + 0.5);
                      probability = max 0 probability;
                      (r, g') = random_random g
                  in Inr (r < probability, g'))
          else Inr (True, g))"

text \<open>\<^verbatim>\<open>Agent._collusion_vote\<close>\<close>

definition collusion_vote :: "real \<Rightarrow> rng \<Rightarrow> bool \<times> rng" where
  "collusion_vote q g =
     (let correct_vote = (q \<ge> 0.5)
      in if 0.4 < q \<and> q < 0.6 then (\<not> correct_vote, g)
         else if (0.35 < q \<and> q \<le> 0.4) \<or> (0.6 \<le> q \<and> q < 0.65) then
           (let (r, g') = random_random g
            in if r < 0.5 then (\<not> correct_vote, g') else (correct_vote, g'))
         else (correct_vote, g))"

text \<open>\<^verbatim>\<open>Agent._whale_vote\<close>\<close>

definition whale_vote :: "real \<Rightarrow> rng \<Rightarrow> bool \<times> rng" where
  "whale_vote q g = collusion_vote q g"

text \<open>\<^verbatim>\<open>Agent._sybil_vote\<close>\<close>

definition sybil_vote :: "real \<Rightarrow> rng \<Rightarrow> bool \<times> rng" where
  "sybil_vote q g =
     (let correct_vote = (q \<ge> 0.5)
      in if 0.4 < q \<and> q < 0.6 then (\<not> correct_vote, g) else (correct_vote, g))"

text \<open>\<^verbatim>\<open>Agent._emotional_bias_vote\<close>\<close>

definition emotional_bias_vote :: "real \<Rightarrow> rng \<Rightarrow> bool \<times> rng" where
  "emotional_bias_vote q g =
     (let correct_vote = (q \<ge> 0.5);
          (r, g') = random_random g
      in if r < 0.5 then (\<not> correct_vote, g') else (correct_vote, g'))"

text \<open>\<^verbatim>\<open>Agent._systematic_bias_vote\<close>\<close>

definition systematic_bias_vote :: "real \<Rightarrow> rng \<Rightarrow> bool \<times> rng" where
  "systematic_bias_vote q g = (let correct_vote = (q \<ge> 0.5) in (\<not> correct_vote, g))"

text \<open>
  \<^verbatim>\<open>Agent.vote_on_proposal\<close>. The six constructors of \<^typ>\<open>AgentType\<close> are the members of
  the enum; the final \<^verbatim>\<open>else\<close> of the source, which raises for any other value, has no
  counterpart for a value of this type.
\<close>

definition vote_on_proposal :: "Agent \<Rightarrow> real \<Rightarrow> rng \<Rightarrow> error + (bool \<times> rng)" where
  "vote_on_proposal a proposal_quality g =
     (case agent_type a of
        HONEST \<Rightarrow> honest_vote a proposal_quality g
      | COLLUSION \<Rightarrow> Inr (collusion_vote proposal_quality g)
      | WHALE \<Rightarrow> Inr (whale_vote proposal_quality g)
      | SYBIL \<Rightarrow> Inr (sybil_vote proposal_quality g)
      | EMOTIONAL_BIAS \<Rightarrow> Inr (emotional_bias_vote proposal_quality g)
      | SYSTEMATIC_BIAS \<Rightarrow> Inr (systematic_bias_vote proposal_quality g))"

text \<open>
  A run of \<^verbatim>\<open>Agent.apply_slashing\<close> calls: the agent before the first call and after each
  call, in order.
\<close>

fun slashing_trace :: "Agent \<Rightarrow> real list \<Rightarrow> Agent list" where
  "slashing_trace a [] = [a]"
| "slashing_trace a (s # ss) = a # slashing_trace (Agent_apply_slashing a s) ss"

section \<open>The voting system\<close>

text \<open>
  \<^verbatim>\<open>VotingSystem.calculate_voting_power\<close>. The stake method is examined first, so an
  unknown stake method raises even under \<^verbatim>\<open>simple_majority\<close>. \<^verbatim>\<open>math.sqrt\<close> raises
  \<^verbatim>\<open>ValueError\<close> on a negative argument.
\<close>

definition calculate_voting_power :: "GovernanceMechanism \<Rightarrow> Agent \<Rightarrow> error + real" where
  "calculate_voting_power m a =
     (let effective_stake = get_effective_stake a
      in case (if stake_method m = ''equal_weight'' then Inr 1
               else if stake_method m = ''token_based'' then Inr effective_stake
               else if stake_method m = ''reputation_based'' then Inr effective_stake
               else if stake_method m = ''hybrid'' then Inr ((effective_stake + 1) / 2)
               else Inl ValueError) of
           Inl e \<Rightarrow> Inl e
         | Inr base_power \<Rightarrow>
             if voting_method m = ''simple_majority'' then Inr 1
             else if voting_method m = ''weighted'' then Inr base_power
             else if voting_method m = ''quadratic'' then
               (if base_power < 0 then Inl ValueError else Inr (sqrt base_power))
             else Inl ValueError)"

text \<open>\<^verbatim>\<open>VotingSystem.apply_sybil_resistance\<close>\<close>

definition apply_sybil_resistance ::
  "GovernanceMechanism \<Rightarrow> Agent \<Rightarrow> real \<Rightarrow> rng \<Rightarrow> real \<times> rng" where
  "apply_sybil_resistance m a voting_power g =
     (if agent_type a = SYBIL then
        (let (r, g') = random_random g
         in if r < sybil_resistance m then (0, g') else (voting_power, g'))
      else (voting_power, g))"

text \<open>
  \<^verbatim>\<open>VotingSystem.apply_max_voting_power_cap\<close>. The argument \<^verbatim>\<open>agents\<close> is not used by
  the source. The keys of a dict are distinct, so the loop that fills \<^verbatim>\<open>capped_powers\<close>
  entry by entry keeps the keys and their order.
\<close>

definition apply_max_voting_power_cap ::
  "GovernanceMechanism \<Rightarrow> Agent list \<Rightarrow> (int \<times> real) list \<Rightarrow> (int \<times> real) list" where
  "apply_max_voting_power_cap m agents voting_powers =
     (let total_power = sum_list (map snd voting_powers)
      in if total_power = 0 then voting_powers
         else let max_allowed_power = total_power * max_voting_power m
              in map (\<lambda>(aid, pwr).
                        (aid, if pwr > max_allowed_power then max_allowed_power else pwr))
                     voting_powers)"

text \<open>
  Step 1 of \<^verbatim>\<open>conduct_vote\<close>: the loop over the agents that fills \<^verbatim>\<open>votes_cast\<close> and
  \<^verbatim>\<open>voting_powers\<close>. No agent is mutated here.
\<close>

fun collect_votes ::
  "GovernanceMechanism \<Rightarrow> Agent list \<Rightarrow> real \<Rightarrow> rng \<Rightarrow> (int \<times> bool) list \<Rightarrow> (int \<times> real) list
     \<Rightarrow> error + ((int \<times> bool) list \<times> (int \<times> real) list \<times> rng)" where
  "collect_votes m [] q g vc vp = Inr (vc, vp, g)"
| "collect_votes m (a # as) q g vc vp =
     (case vote_on_proposal a q g of
        Inl e \<Rightarrow> Inl e
      | Inr (vote, g1) \<Rightarrow>
          (case calculate_voting_power m a of
             Inl e \<Rightarrow> Inl e
           | Inr pwr \<Rightarrow>
               (case apply_sybil_resistance m a pwr g1 of
                  (pwr', g2) \<Rightarrow>
                    collect_votes m as q g2
                      (AList.update (agent_id a) vote vc)
                      (AList.update (agent_id a) pwr' vp))))"

text \<open>
  Step 3 of \<^verbatim>\<open>conduct_vote\<close>: the tally, with the accumulators
  \<^verbatim>\<open>(yes_power, no_power, total_power)\<close>. Reading a missing key of \<^verbatim>\<open>voting_powers\<close>
  raises \<^verbatim>\<open>KeyError\<close>.
\<close>

fun tally_votes ::
  "(int \<times> bool) list \<Rightarrow> (int \<times> real) list \<Rightarrow> real \<times> real \<times> real
     \<Rightarrow> error + (real \<times> real \<times> real)" where
  "tally_votes [] vp acc = Inr acc"
| "tally_votes ((aid, vote) # vs) vp (yes_power, no_power, total_power) =
     (case map_of vp aid of
        None \<Rightarrow> Inl KeyError
      | Some pwr \<Rightarrow>
          if vote then tally_votes vs vp (yes_power + pwr, no_power, total_power + pwr)
          else tally_votes vs vp (yes_power, no_power + pwr, total_power + pwr))"

text \<open>
  The local variable \<^verbatim>\<open>slash_multiplier\<close> of the exponential branch of
  \<^verbatim>\<open>calculate_slash_amount\<close>.
\<close>

definition slash_multiplier :: "Agent \<Rightarrow> real" where
  "slash_multiplier a = 1 + amount_slashed a / original_stake a"

text \<open>\<^verbatim>\<open>VotingSystem.calculate_slash_amount\<close>\<close>

definition calculate_slash_amount :: "GovernanceMechanism \<Rightarrow> Agent \<Rightarrow> error + real" where
  "calculate_slash_amount m a =
     (let base_slash = get_effective_stake a * slashing_rate m
      in if slashing_method m = ''linear'' then Inr base_slash
         else if slashing_method m = ''exponential'' then
           (if original_stake a = 0 then Inl ZeroDivisionError
            else Inr (base_slash * slash_multiplier a))
         else if slashing_method m = ''progressive'' then
           (if slashing_rate m > 0 then
              (if slashing_rate m * original_stake a = 0 then Inl ZeroDivisionError
               else let times_slashed = amount_slashed a / (slashing_rate m * original_stake a);
                        progressive_multiplier = 1 + times_slashed * 0.5
                    in Inr (base_slash * progressive_multiplier))
            else let times_slashed = 0;
                     progressive_multiplier = 1 + times_slashed * 0.5
                 in Inr (base_slash * progressive_multiplier))
         else Inr base_slash)"

text \<open>
  The dict \<^verbatim>\<open>agents_by_id\<close> of \<^verbatim>\<open>apply_slashing\<close>. Its values are the agent objects,
  which the loop mutates; the model names an object by its position in the list
  \<^verbatim>\<open>agents\<close>. Of two agents with the same id the later one is kept.
\<close>

definition agents_by_id :: "Agent list \<Rightarrow> (int \<rightharpoonup> nat)" where
  "agents_by_id agents = map_of (rev (zip (map agent_id agents) [0..<length agents]))"

text \<open>The condition under which \<^verbatim>\<open>apply_slashing\<close> penalises a vote.\<close>

definition supported_wrong_outcome :: "Proposal \<Rightarrow> bool \<Rightarrow> bool \<Rightarrow> bool" where
  "supported_wrong_outcome p proposal_passed vote =
     ((proposal_passed \<and> \<not> is_objectively_good p \<and> vote) \<or>
      (\<not> proposal_passed \<and> is_objectively_good p \<and> \<not> vote))"

text \<open>
  The loop of \<^verbatim>\<open>VotingSystem.apply_slashing\<close> over \<^verbatim>\<open>votes_cast\<close>. The state is the list
  of agents and the list \<^verbatim>\<open>agents_slashed\<close>. When \<^verbatim>\<open>calculate_slash_amount\<close> raises, the
  agents slashed before stay slashed, so the agents are returned in every case.
\<close>

fun slashing_loop ::
  "GovernanceMechanism \<Rightarrow> (int \<rightharpoonup> nat) \<Rightarrow> Proposal \<Rightarrow> bool \<Rightarrow> (int \<times> bool) list
     \<Rightarrow> Agent list \<Rightarrow> int list \<Rightarrow> Agent list \<times> (error + int list)" where
  "slashing_loop m by_id p proposal_passed [] agents slashed = (agents, Inr slashed)"
| "slashing_loop m by_id p proposal_passed ((aid, vote) # vs) agents slashed =
     (case by_id aid of
        None \<Rightarrow> (agents, Inl KeyError)
      | Some i \<Rightarrow>
          if supported_wrong_outcome p proposal_passed vote then
            (case calculate_slash_amount m (agents ! i) of
               Inl e \<Rightarrow> (agents, Inl e)
             | Inr slash_amount \<Rightarrow>
                 slashing_loop m by_id p proposal_passed vs
                   (agents[i := Agent_apply_slashing (agents ! i) slash_amount])
                   (slashed @ [aid]))
          else slashing_loop m by_id p proposal_passed vs agents slashed)"

text \<open>\<^verbatim>\<open>VotingSystem.apply_slashing\<close>\<close>

definition apply_slashing ::
  "GovernanceMechanism \<Rightarrow> Agent list \<Rightarrow> (int \<times> bool) list \<Rightarrow> Proposal \<Rightarrow> bool
     \<Rightarrow> Agent list \<times> (error + int list)" where
  "apply_slashing m agents vc p proposal_passed =
     (if slashing_method m = ''none'' \<or> slashing_rate m = 0 then (agents, Inr [])
      else slashing_loop m (agents_by_id agents) p proposal_passed vc agents [])"

text \<open>
  \<^verbatim>\<open>VotingSystem.conduct_vote\<close>. The result holds the agents after the call, and either the
  exception raised or the \<^verbatim>\<open>VoteResult\<close> with the random source left for the next call.
\<close>

definition conduct_vote ::
  "GovernanceMechanism \<Rightarrow> Agent list \<Rightarrow> Proposal \<Rightarrow> rng
     \<Rightarrow> Agent list \<times> (error + (VoteResult \<times> rng))" where
  "conduct_vote m agents p g =
     (case collect_votes m agents (quality p) g [] [] of
        Inl e \<Rightarrow> (agents, Inl e)
      | Inr (vc, vp, g') \<Rightarrow>
          (let voting_powers = apply_max_voting_power_cap m agents vp
           in case tally_votes vc voting_powers (0, 0, 0) of
                Inl e \<Rightarrow> (agents, Inl e)
              | Inr (yes_power, no_power, total_power) \<Rightarrow>
                  (let pass = (if total_power = 0 then False
                               else yes_power / total_power \<ge> consensus_threshold m);
                       should_pass = is_objectively_good p;
                       correct = (pass = should_pass);
                       result = \<lparr>proposal = p, passed = pass,
                                 total_voting_power = total_power,
                                 yes_voting_power = yes_power,
                                 no_voting_power = no_power,
                                 votes_cast = vc, agents_slashed = [],
                                 correct_outcome = correct\<rparr>
                   in if \<not> correct then
                        (case apply_slashing m agents vc p pass of
                           (agents', Inl e) \<Rightarrow> (agents', Inl e)
                         | (agents', Inr slashed) \<Rightarrow>
                             (agents', Inr (result\<lparr>agents_slashed := slashed\<rparr>, g')))
                      else (agents, Inr (result, g')))))"

section \<open>The formulas of the specification\<close>

text \<open>
  The base power as the specification words it in its section 4.2: equal-weight gives 1,
  token-based and reputation-based give the effective stake, hybrid gives
  \<open>(effective_stake + 1) / 2\<close>.
\<close>

definition spec_base_power :: "string \<Rightarrow> real \<Rightarrow> real" where
  "spec_base_power sm effective_stake =
     (if sm = ''equal_weight'' then 1
      else if sm = ''hybrid'' then (effective_stake + 1) / 2
      else effective_stake)"

text \<open>
  The method multiplier as the specification words it in its section 4.3: 1 for linear,
  \<open>1 + amount_slashed / original_stake\<close> for exponential, and for progressive
  \<open>1 + 0.5 * (amount_slashed / (slashing_rate * original_stake))\<close> when the rate is
  positive, else 0.
\<close>

definition spec_method_multiplier :: "GovernanceMechanism \<Rightarrow> Agent \<Rightarrow> real" where
  "spec_method_multiplier m a =
     (if slashing_method m = ''exponential'' then 1 + amount_slashed a / original_stake a
      else if slashing_method m = ''progressive'' then
        (if slashing_rate m > 0
         then 1 + 0.5 * (amount_slashed a / (slashing_rate m * original_stake a))
         else 0)
      else 1)"

section \<open>Rounds used as examples\<close>

text \<open>
  A round in which a wrong outcome is slashed: a systematically biased agent of stake 10,
  a sybil of stake 1 and an honest agent of stake 5 vote on a proposal of quality 0.3.
\<close>

definition example_mechanism :: GovernanceMechanism where
  "example_mechanism =
     \<lparr>voting_method = ''weighted'', stake_method = ''token_based'',
      slashing_method = ''linear'', consensus_threshold = 0.5, slashing_rate = 0.1,
      sybil_resistance = 0, max_voting_power = 1\<rparr>"

definition example_agents :: "Agent list" where
  "example_agents =
     [mk_agent 1 SYSTEMATIC_BIAS 10 None, mk_agent 2 SYBIL 1 None,
      mk_agent 3 HONEST 5 (Some 0.6)]"

definition example_proposal :: Proposal where
  "example_proposal = \<lparr>proposal_id = 1, quality = 0.3\<rparr>"

definition example_result :: VoteResult where
  "example_result =
     \<lparr>proposal = example_proposal, passed = True, total_voting_power = 16,
      yes_voting_power = 10, no_voting_power = 6,
      votes_cast = [(1, True), (2, False), (3, False)], agents_slashed = [1],
      correct_outcome = False\<rparr>"

definition example_agents_after :: "Agent list" where
  "example_agents_after =
     [(mk_agent 1 SYSTEMATIC_BIAS 10 None)\<lparr>amount_slashed := 1\<rparr>, mk_agent 2 SYBIL 1 None,
      mk_agent 3 HONEST 5 (Some 0.6)]"








section \<open>Slashing of a single agent\<close>

lemma Agent_apply_slashing_amount:
  "amount_slashed (Agent_apply_slashing a s) = min (stake a) (amount_slashed a + s)"
  by (simp add: Agent_apply_slashing_def Let_def min_def)

lemma Agent_apply_slashing_frame:
  "Agent_apply_slashing a s = a\<lparr>amount_slashed := amount_slashed (Agent_apply_slashing a s)\<rparr>"
  by (simp add: Agent_apply_slashing_def Let_def)

lemma Agent_apply_slashing_stake [simp]: "stake (Agent_apply_slashing a s) = stake a"
  by (simp add: Agent_apply_slashing_def Let_def)

lemma Agent_apply_slashing_original_stake [simp]:
  "original_stake (Agent_apply_slashing a s) = original_stake a"
  by (simp add: Agent_apply_slashing_def Let_def)

lemma Agent_apply_slashing_agent_id [simp]:
  "agent_id (Agent_apply_slashing a s) = agent_id a"
  by (simp add: Agent_apply_slashing_def Let_def)

lemma slashing_trace_lower:
  "\<forall>s\<in>set ss. 0 \<le> s \<Longrightarrow> amount_slashed a \<le> stake a \<Longrightarrow> b \<in> set (slashing_trace a ss)
     \<Longrightarrow> amount_slashed a \<le> amount_slashed b \<and> amount_slashed b \<le> stake b \<and> stake b = stake a"
proof (induction ss arbitrary: a)
  case Nil
  then show ?case by simp
next
  case (Cons s ss)
  let ?a' = "Agent_apply_slashing a s"
  have s: "0 \<le> s" using Cons.prems(1) by simp
  have le: "amount_slashed a \<le> amount_slashed ?a'"
    using s Cons.prems(2) by (simp add: Agent_apply_slashing_amount)
  have inv: "amount_slashed ?a' \<le> stake ?a'"
    by (simp add: Agent_apply_slashing_amount)
  show ?case
  proof (cases "b = a")
    case True
    then show ?thesis using Cons.prems(2) by simp
  next
    case False
    then have "b \<in> set (slashing_trace ?a' ss)" using Cons.prems(3) by simp
    from Cons.IH[OF _ inv this] Cons.prems(1) le show ?thesis by simp
  qed
qed

lemma slashing_trace_sorted:
  "\<forall>s\<in>set ss. 0 \<le> s \<Longrightarrow> amount_slashed a \<le> stake a
     \<Longrightarrow> sorted (map amount_slashed (slashing_trace a ss))"
proof (induction ss arbitrary: a)
  case Nil
  then show ?case by simp
next
  case (Cons s ss)
  let ?a' = "Agent_apply_slashing a s"
  have s: "0 \<le> s" and ss: "\<forall>s\<in>set ss. 0 \<le> s" using Cons.prems(1) by simp_all
  have le: "amount_slashed a \<le> amount_slashed ?a'"
    using s Cons.prems(2) by (simp add: Agent_apply_slashing_amount)
  have inv: "amount_slashed ?a' \<le> stake ?a'"
    by (simp add: Agent_apply_slashing_amount)
  have "\<forall>b\<in>set (slashing_trace ?a' ss). amount_slashed a \<le> amount_slashed b"
    using slashing_trace_lower[OF ss inv] le by fastforce
  then show ?case using Cons.IH[OF ss inv] by simp
qed

text \<open>
  Claim C7. Let an agent satisfy \<open>0 \<le> amount_slashed \<le> stake\<close>, as every agent does
  after \<^verbatim>\<open>__post_init__\<close> when its stake is not negative. Along any finite run of
  \<^verbatim>\<open>apply_slashing\<close> calls with non-negative amounts, \<^verbatim>\<open>amount_slashed\<close> never decreases
  from one state to the next, it never exceeds \<^verbatim>\<open>stake\<close>, the stake itself does not
  change, and the effective stake stays between 0 and the stake.
\<close>

theorem C7_amount_slashed_monotone_bounded:
  assumes "0 \<le> amount_slashed a" and "amount_slashed a \<le> stake a"
    and "\<forall>s\<in>set ss. 0 \<le> s"
  shows "sorted (map amount_slashed (slashing_trace a ss)) \<and>
         (\<forall>b\<in>set (slashing_trace a ss).
            stake b = stake a \<and> amount_slashed b \<le> stake b \<and>
            0 \<le> get_effective_stake b \<and> get_effective_stake b \<le> stake b)"
proof -
  have "\<And>b. b \<in> set (slashing_trace a ss) \<Longrightarrow>
          stake b = stake a \<and> amount_slashed b \<le> stake b \<and>
          0 \<le> get_effective_stake b \<and> get_effective_stake b \<le> stake b"
  proof -
    fix b assume "b \<in> set (slashing_trace a ss)"
    from slashing_trace_lower[OF assms(3) assms(2) this] assms(1)
    show "stake b = stake a \<and> amount_slashed b \<le> stake b \<and>
          0 \<le> get_effective_stake b \<and> get_effective_stake b \<le> stake b"
      by (simp add: get_effective_stake_def)
  qed
  then show ?thesis using slashing_trace_sorted[OF assms(3) assms(2)] by blast
qed

text \<open>
  A fresh agent of stake 5 slashed three times by 2: the amounts are 0, 2, 4, 5 and the
  effective stakes 5, 3, 1, 0.
\<close>

theorem C7_witness:
  "0 \<le> amount_slashed (mk_agent 1 HONEST 5 (Some 0.5)) \<and>
   amount_slashed (mk_agent 1 HONEST 5 (Some 0.5)) \<le> stake (mk_agent 1 HONEST 5 (Some 0.5)) \<and>
   sorted (map amount_slashed (slashing_trace (mk_agent 1 HONEST 5 (Some 0.5)) [2, 2, 2])) \<and>
   map amount_slashed (slashing_trace (mk_agent 1 HONEST 5 (Some 0.5)) [2, 2, 2]) = [0, 2, 4, 5] \<and>
   map get_effective_stake (slashing_trace (mk_agent 1 HONEST 5 (Some 0.5)) [2, 2, 2])
     = [5, 3, 1, 0]"
  using C7_amount_slashed_monotone_bounded[of "mk_agent 1 HONEST 5 (Some 0.5)" "[2, 2, 2]"]
  by (simp add: mk_agent_def Agent_apply_slashing_def get_effective_stake_def Let_def)

lemma Agent_apply_slashing_eq:
  "Agent_apply_slashing a s = a\<lparr>amount_slashed := min (stake a) (amount_slashed a + s)\<rparr>"
  by (simp add: Agent_apply_slashing_def Let_def min_def)

lemma get_effective_stake_nonneg: "0 \<le> get_effective_stake a"
  by (simp add: get_effective_stake_def)

section \<open>The honest vote\<close>

lemma random_random_const_rng: "random_random (const_rng r) = (r, const_rng r)"
  by (simp add: random_random_def const_rng_def)

text \<open>
  Claim C1, as the code has it. Let an honest agent have threshold \<open>x\<close> with
  \<open>0.4 \<le> x \<le> 0.8\<close> and let the quality \<open>q\<close> lie in \<open>[0, 1]\<close>. With \<open>u\<close> the number
  that \<^verbatim>\<open>random.random()\<close> returns next, \<^verbatim>\<open>vote_on_proposal\<close> returns
  \<^item> YES without drawing a number when \<open>q > x\<close>, and when \<open>q = x\<close> unless \<open>q = 0.4\<close>;
  \<^item> \<open>u < q / x\<close> when \<open>0.4 < q < x\<close>, where \<open>q / x\<close> lies in \<open>[0, 1]\<close>;
  \<^item> \<open>u < max 0 ((q - 0.2) / (x + 0.5))\<close> when \<open>q \<le> 0.4\<close>, where the bound is at most 1;
    this includes \<open>q = 0.4 = x\<close>.
  For \<open>u\<close> uniform on \<open>[0, 1)\<close> the event \<open>u < c\<close> with \<open>0 \<le> c \<le> 1\<close> has probability \<open>c\<close>.
\<close>

theorem C1_honest_vote:
  assumes "agent_type a = HONEST" and "honesty_threshold a = Some x"
    and "0.4 \<le> x" and "x \<le> 0.8" and "0 \<le> q" and "q \<le> 1"
  shows "(x < q \<or> (q = x \<and> q \<noteq> 0.4) \<longrightarrow>
            vote_on_proposal a q g = Inr (True, g)) \<and>
         (0.4 < q \<and> q < x \<longrightarrow>
            vote_on_proposal a q g = Inr (fst (random_random g) < q / x, snd (random_random g))
            \<and> 0 \<le> q / x \<and> q / x \<le> 1) \<and>
         (q \<le> 0.4 \<longrightarrow>
            vote_on_proposal a q g =
              Inr (fst (random_random g) < max 0 ((q - 0.2) / (x + 0.5)), snd (random_random g))
            \<and> max 0 ((q - 0.2) / (x + 0.5)) \<le> 1)"
proof -
  have p1: "x < q \<or> (q = x \<and> q \<noteq> 0.4) \<Longrightarrow> vote_on_proposal a q g = Inr (True, g)"
    using assms by (auto simp add: vote_on_proposal_def honest_vote_def)
  have p2: "0.4 < q \<and> q < x \<Longrightarrow>
      vote_on_proposal a q g = Inr (fst (random_random g) < q / x, snd (random_random g))"
    using assms by (simp add: vote_on_proposal_def honest_vote_def Let_def split_beta)
  have p2': "0.4 < q \<and> q < x \<Longrightarrow> 0 \<le> q / x \<and> q / x \<le> 1"
    using assms by simp
  have p3: "q \<le> 0.4 \<Longrightarrow> vote_on_proposal a q g =
              Inr (fst (random_random g) < max 0 ((q - 0.2) / (x + 0.5)), snd (random_random g))"
    using assms by (simp add: vote_on_proposal_def honest_vote_def Let_def split_beta)
  have p3': "q \<le> 0.4 \<Longrightarrow> max 0 ((q - 0.2) / (x + 0.5)) \<le> 1"
    using assms by simp
  from p1 p2 p2' p3 p3' show ?thesis by blast
qed

text \<open>
  At threshold 0.4 and quality 0.4 the quality reaches the threshold, yet the branch for
  quality 0.4 is taken: with the draw 0.5 the agent votes NO.
\<close>

theorem C1_counterexample:
  "agent_type (mk_agent 1 HONEST 5 (Some 0.4)) = HONEST \<and>
   honesty_threshold (mk_agent 1 HONEST 5 (Some 0.4)) = Some 0.4 \<and>
   (0.4::real) \<le> 0.4 \<and> (0.4::real) \<le> 0.8 \<and> (0.4::real) \<ge> 0.4 \<and>
   vote_on_proposal (mk_agent 1 HONEST 5 (Some 0.4)) 0.4 (const_rng (1 / 2))
     = Inr (False, const_rng (1 / 2))"
  by (simp add: mk_agent_def vote_on_proposal_def honest_vote_def random_random_const_rng)

text \<open>
  An agent of threshold 0.6: quality 0.7 and quality 0.6 give YES; quality 0.5 gives YES
  exactly when the draw is below \<open>0.5 / 0.6\<close>; quality 0.3 exactly when it is below
  \<open>0.1 / 1.1\<close>.
\<close>

theorem C1_witness:
  "vote_on_proposal (mk_agent 1 HONEST 5 (Some 0.6)) 0.7 (const_rng (1 / 2))
     = Inr (True, const_rng (1 / 2)) \<and>
   vote_on_proposal (mk_agent 1 HONEST 5 (Some 0.6)) 0.6 (const_rng (1 / 2))
     = Inr (True, const_rng (1 / 2)) \<and>
   vote_on_proposal (mk_agent 1 HONEST 5 (Some 0.6)) 0.5 (const_rng (1 / 2))
     = Inr (True, const_rng (1 / 2)) \<and>
   vote_on_proposal (mk_agent 1 HONEST 5 (Some 0.6)) 0.3 (const_rng (1 / 2))
     = Inr (False, const_rng (1 / 2))"
  using C1_honest_vote[of "mk_agent 1 HONEST 5 (Some 0.6)" "0.6" "0.7" "const_rng (1 / 2)"]
    C1_honest_vote[of "mk_agent 1 HONEST 5 (Some 0.6)" "0.6" "0.6" "const_rng (1 / 2)"]
    C1_honest_vote[of "mk_agent 1 HONEST 5 (Some 0.6)" "0.6" "0.5" "const_rng (1 / 2)"]
    C1_honest_vote[of "mk_agent 1 HONEST 5 (Some 0.6)" "0.6" "0.3" "const_rng (1 / 2)"]
  by (simp add: mk_agent_def random_random_const_rng)

section \<open>Voting power and the cap\<close>

text \<open>
  Claim C6. For a recognised stake method and a recognised voting method,
  \<^verbatim>\<open>calculate_voting_power\<close> returns the constant 1 under \<^verbatim>\<open>simple_majority\<close> (so any two
  agents get the same power), the base power under \<^verbatim>\<open>weighted\<close>, and its square root
  under \<^verbatim>\<open>quadratic\<close>; the base power is 1 for \<^verbatim>\<open>equal_weight\<close>, the effective stake
  for \<^verbatim>\<open>token_based\<close> and \<^verbatim>\<open>reputation_based\<close>, and \<open>(effective_stake + 1) / 2\<close> for
  \<^verbatim>\<open>hybrid\<close>.
\<close>

theorem C6_voting_power:
  assumes "stake_method m \<in> {''equal_weight'', ''token_based'', ''reputation_based'', ''hybrid''}"
    and "voting_method m \<in> {''simple_majority'', ''weighted'', ''quadratic''}"
  shows "(voting_method m = ''simple_majority'' \<longrightarrow>
            calculate_voting_power m a = Inr 1 \<and>
            (\<forall>b. calculate_voting_power m b = calculate_voting_power m a)) \<and>
         (voting_method m = ''weighted'' \<longrightarrow>
            calculate_voting_power m a
              = Inr (spec_base_power (stake_method m) (get_effective_stake a))) \<and>
         (voting_method m = ''quadratic'' \<longrightarrow>
            calculate_voting_power m a
              = Inr (sqrt (spec_base_power (stake_method m) (get_effective_stake a))))"
proof -
  have nn: "\<not> get_effective_stake a < 0" "\<not> get_effective_stake a + 1 < 0"
    using get_effective_stake_nonneg[of a] by simp_all
  show ?thesis using assms
    by (auto simp add: calculate_voting_power_def spec_base_power_def Let_def nn)
qed

text \<open>
  An agent of stake 7: quadratic over hybrid gives 2, simple majority gives 1, weighted over
  token-based gives 7.
\<close>

theorem C6_witness:
  "calculate_voting_power
      \<lparr>voting_method = ''quadratic'', stake_method = ''hybrid'', slashing_method = ''none'',
       consensus_threshold = 0.5, slashing_rate = 0, sybil_resistance = 0,
       max_voting_power = 1\<rparr> (mk_agent 1 WHALE 7 None) = Inr 2 \<and>
   calculate_voting_power
      \<lparr>voting_method = ''simple_majority'', stake_method = ''token_based'', slashing_method = ''none'',
       consensus_threshold = 0.5, slashing_rate = 0, sybil_resistance = 0,
       max_voting_power = 1\<rparr> (mk_agent 1 WHALE 7 None) = Inr 1 \<and>
   calculate_voting_power
      \<lparr>voting_method = ''weighted'', stake_method = ''token_based'', slashing_method = ''none'',
       consensus_threshold = 0.5, slashing_rate = 0, sybil_resistance = 0,
       max_voting_power = 1\<rparr> (mk_agent 1 WHALE 7 None) = Inr 7"
  using C6_voting_power[of "\<lparr>voting_method = ''quadratic'', stake_method = ''hybrid'', slashing_method = ''none'',
       consensus_threshold = 0.5, slashing_rate = 0, sybil_resistance = 0,
       max_voting_power = 1\<rparr>" "mk_agent 1 WHALE 7 None"]
   C6_voting_power[of "\<lparr>voting_method = ''simple_majority'', stake_method = ''token_based'', slashing_method = ''none'',
       consensus_threshold = 0.5, slashing_rate = 0, sybil_resistance = 0,
       max_voting_power = 1\<rparr>" "mk_agent 1 WHALE 7 None"]
   C6_voting_power[of "\<lparr>voting_method = ''weighted'', stake_method = ''token_based'', slashing_method = ''none'',
       consensus_threshold = 0.5, slashing_rate = 0, sybil_resistance = 0,
       max_voting_power = 1\<rparr>" "mk_agent 1 WHALE 7 None"]
  by (simp add: spec_base_power_def get_effective_stake_def mk_agent_def)

lemma cap_keys: "map fst (apply_max_voting_power_cap m ags vp) = map fst vp"
  by (simp add: apply_max_voting_power_cap_def Let_def split_beta comp_def)

lemma cap_length: "length (apply_max_voting_power_cap m ags vp) = length vp"
  by (simp add: apply_max_voting_power_cap_def Let_def)

lemma cap_le_input:
  "i < length vp \<Longrightarrow> snd (apply_max_voting_power_cap m ags vp ! i) \<le> snd (vp ! i)"
  by (simp add: apply_max_voting_power_cap_def Let_def split_beta)

lemma cap_le_share:
  "i < length vp \<Longrightarrow> sum_list (map snd vp) \<noteq> 0 \<Longrightarrow>
     snd (apply_max_voting_power_cap m ags vp ! i) \<le> sum_list (map snd vp) * max_voting_power m"
  by (simp add: apply_max_voting_power_cap_def Let_def split_beta)

lemma cap_sum_le:
  "sum_list (map snd (apply_max_voting_power_cap m ags vp)) \<le> sum_list (map snd vp)"
proof -
  have "sum_list (map snd (map (\<lambda>(aid, pwr). (aid, if pwr > c then c else pwr)) vp))
          \<le> sum_list (map snd vp)" for c :: real
    by (induction vp) (auto simp add: split_beta)
  then show ?thesis by (simp add: apply_max_voting_power_cap_def Let_def)
qed

text \<open>
  Claim C3. For voting powers that are not negative and whose total \<open>T\<close> is positive,
  \<^verbatim>\<open>apply_max_voting_power_cap\<close> keeps the keys and returns for every entry a power
  that is at most \<open>T * max_voting_power\<close> and at most the power that came in; the sum of
  the capped powers is at most \<open>T\<close>.
\<close>

theorem C3_cap_bounds:
  assumes "\<forall>kp\<in>set vp. 0 \<le> snd kp" and "0 < sum_list (map snd vp)"
  shows "map fst (apply_max_voting_power_cap m ags vp) = map fst vp \<and>
         (\<forall>i<length vp.
            snd (apply_max_voting_power_cap m ags vp ! i)
              \<le> sum_list (map snd vp) * max_voting_power m \<and>
            snd (apply_max_voting_power_cap m ags vp ! i) \<le> snd (vp ! i)) \<and>
         sum_list (map snd (apply_max_voting_power_cap m ags vp)) \<le> sum_list (map snd vp)"
  using assms(2) cap_keys[of m ags vp] cap_le_input[of _ vp m ags] cap_le_share[of _ vp m ags]
    cap_sum_le[of m ags vp]
  by simp

text \<open>
  Powers 6, 1, 1 under a share of one half: the first is capped at 4.
\<close>

theorem C3_witness:
  "apply_max_voting_power_cap
      \<lparr>voting_method = ''weighted'', stake_method = ''token_based'', slashing_method = ''none'',
       consensus_threshold = 0.5, slashing_rate = 0, sybil_resistance = 0,
       max_voting_power = 0.5\<rparr> [] [(1, 6), (2, 1), (3, 1)] = [(1, 4), (2, 1), (3, 1)] \<and>
   sum_list (map snd (apply_max_voting_power_cap
      \<lparr>voting_method = ''weighted'', stake_method = ''token_based'', slashing_method = ''none'',
       consensus_threshold = 0.5, slashing_rate = 0, sybil_resistance = 0,
       max_voting_power = 0.5\<rparr> [] [(1, 6), (2, 1), (3, 1)])) \<le> sum_list (map snd [(1::int, 6::real), (2, 1), (3, 1)])"
  using C3_cap_bounds[of "[(1, 6), (2, 1), (3, 1)]" "\<lparr>voting_method = ''weighted'', stake_method = ''token_based'', slashing_method = ''none'',
       consensus_threshold = 0.5, slashing_rate = 0, sybil_resistance = 0,
       max_voting_power = 0.5\<rparr>" "[]"]
  by (simp add: apply_max_voting_power_cap_def)

section \<open>The slash amount\<close>







lemma calculate_slash_amount_multiplier:
  assumes "calculate_slash_amount m a = Inr amt" and "0 < slashing_rate m"
  shows "amt = get_effective_stake a * slashing_rate m * spec_method_multiplier m a"
  using assms
  by (auto simp add: calculate_slash_amount_def spec_method_multiplier_def slash_multiplier_def
        Let_def split: if_splits)

lemma spec_method_multiplier_ge_1:
  assumes "0 < slashing_rate m" and "0 < original_stake a" and "0 \<le> amount_slashed a"
  shows "1 \<le> spec_method_multiplier m a"
  using assms by (simp add: spec_method_multiplier_def)

lemma slashing_strict:
  assumes "0 < slashing_rate m" and "0 < original_stake a" and "0 \<le> amount_slashed a"
    and "0 < get_effective_stake a"
  shows "amount_slashed a
           < amount_slashed (Agent_apply_slashing a
               (get_effective_stake a * slashing_rate m * spec_method_multiplier m a))"
proof -
  have "0 < get_effective_stake a * slashing_rate m" using assms(1,4) by simp
  moreover have "0 < spec_method_multiplier m a"
    using spec_method_multiplier_ge_1[OF assms(1-3)] by simp
  ultimately have "0 < get_effective_stake a * slashing_rate m * spec_method_multiplier m a"
    by simp
  moreover have "amount_slashed a < stake a"
    using assms(4) by (simp add: get_effective_stake_def)
  ultimately show ?thesis by (simp add: Agent_apply_slashing_amount)
qed

section \<open>The dict of agents by id\<close>

lemma agents_by_id_Some:
  assumes "agents_by_id ags k = Some i"
  shows "i < length ags \<and> agent_id (ags ! i) = k"
proof -
  from assms have "(k, i) \<in> set (rev (zip (map agent_id ags) [0..<length ags]))"
    unfolding agents_by_id_def by (rule map_of_SomeD)
  then have "(k, i) \<in> set (zip (map agent_id ags) [0..<length ags])" by simp
  then obtain n where "map agent_id ags ! n = k" and "[0..<length ags] ! n = i"
    and "n < length ags"
    by (auto simp add: in_set_zip)
  then show ?thesis by simp
qed

lemma agents_by_id_defined:
  assumes "k \<in> agent_id ` set ags"
  shows "agents_by_id ags k \<noteq> None"
proof -
  have "fst ` set (rev (zip (map agent_id ags) [0..<length ags])) = agent_id ` set ags"
    by (simp add: image_image flip: set_map)
  then show ?thesis using assms unfolding agents_by_id_def map_of_eq_None_iff by simp
qed

lemma agents_by_id_distinct:
  assumes "distinct (map agent_id ags)" and "i < length ags"
  shows "agents_by_id ags (agent_id (ags ! i)) = Some i"
proof -
  have "agent_id (ags ! i) \<in> agent_id ` set ags" using assms(2) by simp
  then obtain j where j: "agents_by_id ags (agent_id (ags ! i)) = Some j"
    using agents_by_id_defined by blast
  from agents_by_id_Some[OF j] have "j < length ags" and "agent_id (ags ! j) = agent_id (ags ! i)"
    by simp_all
  then have eq: "map agent_id ags ! j = map agent_id ags ! i" using assms(2) by simp
  have "(map agent_id ags ! j = map agent_id ags ! i) = (j = i)"
    by (rule nth_eq_iff_index_eq) (use assms \<open>j < length ags\<close> in simp_all)
  with eq j show ?thesis by simp
qed

section \<open>Collecting and tallying the votes\<close>




lemma collect_votes_Cons_Inr:
  assumes "collect_votes m (a # as) q g vc vp = Inr r"
  obtains vote g1 pw pw' g2 where "vote_on_proposal a q g = Inr (vote, g1)"
    and "calculate_voting_power m a = Inr pw"
    and "apply_sybil_resistance m a pw g1 = (pw', g2)"
    and "collect_votes m as q g2 (AList.update (agent_id a) vote vc)
           (AList.update (agent_id a) pw' vp) = Inr r"
  using assms by (auto split: sum.splits prod.splits)

lemma collect_votes_keys:
  "collect_votes m ags q g vc vp = Inr (vc', vp', g') \<Longrightarrow> map fst vc = map fst vp \<Longrightarrow>
     map fst vc' = map fst vp' \<and>
     set (map fst vc') = set (map fst vc) \<union> agent_id ` set ags \<and>
     (distinct (map fst vc) \<longrightarrow> distinct (map fst vc'))"
proof (induction ags arbitrary: g vc vp)
  case Nil
  then show ?case by simp
next
  case (Cons a as)
  from Cons.prems(1) obtain vote pw' g2 where
    rec: "collect_votes m as q g2 (AList.update (agent_id a) vote vc)
           (AList.update (agent_id a) pw' vp) = Inr (vc', vp', g')"
    by (rule collect_votes_Cons_Inr)
  have keys: "map fst (AList.update (agent_id a) vote vc)
                = map fst (AList.update (agent_id a) pw' vp)"
    using Cons.prems(2) by (simp add: update_keys)
  have dom: "set (map fst (AList.update (agent_id a) vote vc))
               = insert (agent_id a) (set (map fst vc))"
    using dom_update[of "agent_id a" vote vc] by simp
  have dist: "distinct (map fst vc) \<Longrightarrow> distinct (map fst (AList.update (agent_id a) vote vc))"
    by (rule distinct_update)
  from Cons.IH[OF rec keys] have
    1: "map fst vc' = map fst vp'" and
    2: "set (map fst vc') = set (map fst (AList.update (agent_id a) vote vc)) \<union> agent_id ` set as" and
    3: "distinct (map fst (AList.update (agent_id a) vote vc)) \<longrightarrow> distinct (map fst vc')"
    by blast+
  have "set (map fst vc') = set (map fst vc) \<union> agent_id ` set (a # as)"
    unfolding 2 dom by auto
  with 1 3 dist show ?case by blast
qed

lemma collect_votes_initial:
  assumes "collect_votes m ags q g [] [] = Inr (vc, vp, g')"
  shows "map fst vc = map fst vp \<and> fst ` set vc = agent_id ` set ags \<and> distinct (map fst vc)"
proof -
  have e: "map fst ([] :: (int \<times> bool) list) = map fst ([] :: (int \<times> real) list)" by simp
  note k = collect_votes_keys[OF assms e]
  from k have 1: "map fst vc = map fst vp" by blast
  from k have "set (map fst vc) = set (map fst ([] :: (int \<times> bool) list)) \<union> agent_id ` set ags"
    by blast
  then have 2: "fst ` set vc = agent_id ` set ags" by simp
  from k have "distinct (map fst ([] :: (int \<times> bool) list)) \<longrightarrow> distinct (map fst vc)"
    by blast
  then have 3: "distinct (map fst vc)" by simp
  from 1 2 3 show ?thesis by blast
qed







section \<open>The slashing loop\<close>


lemma slashing_loop_frame:
  "slashing_loop m by_id p pp vs ags sl = (ags', r) \<Longrightarrow>
     length ags' = length ags \<and>
     (\<forall>j<length ags. ags' ! j = (ags ! j)\<lparr>amount_slashed := amount_slashed (ags' ! j)\<rparr>)"
proof (induction vs arbitrary: ags sl)
  case Nil
  then show ?case by simp
next
  case (Cons kv vs)
  obtain k v where kv: "kv = (k, v)" by (cases kv)
  show ?case
  proof (cases "by_id k")
    case None
    with Cons.prems show ?thesis unfolding kv by simp
  next
    case (Some i)
    show ?thesis
    proof (cases "supported_wrong_outcome p pp v")
      case False
      with Cons.prems Some have "slashing_loop m by_id p pp vs ags sl = (ags', r)"
        unfolding kv by simp
      from Cons.IH[OF this] show ?thesis .
    next
      case True
      show ?thesis
      proof (cases "calculate_slash_amount m (ags ! i)")
        case (Inl e)
        with Cons.prems Some True show ?thesis unfolding kv by simp
      next
        case (Inr amt)
        let ?ags1 = "ags[i := Agent_apply_slashing (ags ! i) amt]"
        from Cons.prems Some True Inr
        have "slashing_loop m by_id p pp vs ?ags1 (sl @ [k]) = (ags', r)"
          unfolding kv by simp
        from Cons.IH[OF this] have
          len: "length ags' = length ags" and
          fr: "\<And>j. j < length ags \<Longrightarrow>
                 ags' ! j = (?ags1 ! j)\<lparr>amount_slashed := amount_slashed (ags' ! j)\<rparr>"
          by simp_all
        have "ags' ! j = (ags ! j)\<lparr>amount_slashed := amount_slashed (ags' ! j)\<rparr>"
          if j: "j < length ags" for j
        proof (cases "j = i")
          case True
          with j have "?ags1 ! j = Agent_apply_slashing (ags ! j) amt" by simp
          with fr[OF j] show ?thesis by (simp add: Agent_apply_slashing_eq)
        next
          case False
          then have "?ags1 ! j = ags ! j" by simp
          with fr[OF j] show ?thesis by simp
        qed
        with len show ?thesis by blast
      qed
    qed
  qed
qed

lemma slashing_loop_untouched:
  "slashing_loop m by_id p pp vs ags sl = (ags', r) \<Longrightarrow>
   \<forall>kv\<in>set vs. by_id (fst kv) = Some j \<longrightarrow> \<not> supported_wrong_outcome p pp (snd kv) \<Longrightarrow>
   ags' ! j = ags ! j"
proof (induction vs arbitrary: ags sl)
  case Nil
  then show ?case by simp
next
  case (Cons kv vs)
  obtain k v where kv: "kv = (k, v)" by (cases kv)
  from Cons.prems(2) have rest:
    "\<forall>kv\<in>set vs. by_id (fst kv) = Some j \<longrightarrow> \<not> supported_wrong_outcome p pp (snd kv)"
    by simp
  show ?case
  proof (cases "by_id k")
    case None
    with Cons.prems show ?thesis unfolding kv by simp
  next
    case (Some i)
    show ?thesis
    proof (cases "supported_wrong_outcome p pp v")
      case False
      with Cons.prems Some have "slashing_loop m by_id p pp vs ags sl = (ags', r)"
        unfolding kv by simp
      from Cons.IH[OF this rest] show ?thesis .
    next
      case True
      with Cons.prems(2) Some have ne: "i \<noteq> j" unfolding kv by auto
      show ?thesis
      proof (cases "calculate_slash_amount m (ags ! i)")
        case (Inl e)
        with Cons.prems Some True show ?thesis unfolding kv by simp
      next
        case (Inr amt)
        let ?ags1 = "ags[i := Agent_apply_slashing (ags ! i) amt]"
        from Cons.prems Some True Inr
        have "slashing_loop m by_id p pp vs ?ags1 (sl @ [k]) = (ags', r)"
          unfolding kv by simp
        from Cons.IH[OF this rest] ne show ?thesis by simp
      qed
    qed
  qed
qed

lemma slashing_loop_slashed:
  "slashing_loop m by_id p pp vs ags sl = (ags', Inr sl') \<Longrightarrow>
   sl' = sl @ map fst (filter (\<lambda>kv. supported_wrong_outcome p pp (snd kv)) vs)"
proof (induction vs arbitrary: ags sl)
  case Nil
  then show ?case by simp
next
  case (Cons kv vs)
  obtain k v where kv: "kv = (k, v)" by (cases kv)
  show ?case
  proof (cases "by_id k")
    case None
    with Cons.prems show ?thesis unfolding kv by simp
  next
    case (Some i)
    show ?thesis
    proof (cases "supported_wrong_outcome p pp v")
      case False
      with Cons.prems Some have "slashing_loop m by_id p pp vs ags sl = (ags', Inr sl')"
        unfolding kv by simp
      from Cons.IH[OF this] False show ?thesis unfolding kv by simp
    next
      case True
      show ?thesis
      proof (cases "calculate_slash_amount m (ags ! i)")
        case (Inl e)
        with Cons.prems Some True show ?thesis unfolding kv by simp
      next
        case (Inr amt)
        let ?ags1 = "ags[i := Agent_apply_slashing (ags ! i) amt]"
        from Cons.prems Some True Inr
        have "slashing_loop m by_id p pp vs ?ags1 (sl @ [k]) = (ags', Inr sl')"
          unfolding kv by simp
        from Cons.IH[OF this] True show ?thesis unfolding kv by simp
      qed
    qed
  qed
qed

lemma slashing_loop_touched:
  "slashing_loop m by_id p pp vs ags sl = (ags', Inr sl') \<Longrightarrow>
   distinct (map fst vs) \<Longrightarrow>
   \<forall>k k' i. by_id k = Some i \<and> by_id k' = Some i \<longrightarrow> k = k' \<Longrightarrow>
   (k, v) \<in> set vs \<Longrightarrow> by_id k = Some j \<Longrightarrow> j < length ags \<Longrightarrow>
   supported_wrong_outcome p pp v \<Longrightarrow>
   \<exists>amt. calculate_slash_amount m (ags ! j) = Inr amt \<and>
         ags' ! j = Agent_apply_slashing (ags ! j) amt"
proof (induction vs arbitrary: ags sl)
  case Nil
  then show ?case by simp
next
  case (Cons kv0 vs)
  obtain k0 v0 where kv0: "kv0 = (k0, v0)" by (cases kv0)
  from Cons.prems(2) have dist: "distinct (map fst vs)" and notin: "k0 \<notin> fst ` set vs"
    unfolding kv0 by simp_all
  show ?case
  proof (cases "k0 = k")
    case True
    with Cons.prems(4) notin have v0: "v0 = v" unfolding kv0 by force
    from Cons.prems(1,5,7) True v0 obtain amt where
      amt: "calculate_slash_amount m (ags ! j) = Inr amt" and
      rec: "slashing_loop m by_id p pp vs (ags[j := Agent_apply_slashing (ags ! j) amt])
              (sl @ [k]) = (ags', Inr sl')"
      unfolding kv0 by (auto split: sum.splits)
    have "\<forall>kv\<in>set vs. by_id (fst kv) = Some j \<longrightarrow> \<not> supported_wrong_outcome p pp (snd kv)"
    proof
      fix kv assume kv: "kv \<in> set vs"
      show "by_id (fst kv) = Some j \<longrightarrow> \<not> supported_wrong_outcome p pp (snd kv)"
      proof
        assume "by_id (fst kv) = Some j"
        with Cons.prems(3,5) have "fst kv = k" by blast
        with kv notin True show "\<not> supported_wrong_outcome p pp (snd kv)" by force
      qed
    qed
    from slashing_loop_untouched[OF rec this] Cons.prems(6) amt show ?thesis by simp
  next
    case False
    with Cons.prems(4) have mem: "(k, v) \<in> set vs" unfolding kv0 by simp
    from Cons.prems(1) obtain i where i: "by_id k0 = Some i"
      unfolding kv0 by (auto split: option.splits)
    with Cons.prems(3,5) False have ne: "i \<noteq> j" by blast
    show ?thesis
    proof (cases "supported_wrong_outcome p pp v0")
      case False
      with Cons.prems(1) i have "slashing_loop m by_id p pp vs ags sl = (ags', Inr sl')"
        unfolding kv0 by simp
      from Cons.IH[OF this dist Cons.prems(3) mem Cons.prems(5,6,7)] show ?thesis .
    next
      case True
      with Cons.prems(1) i obtain amt0 where
        rec: "slashing_loop m by_id p pp vs (ags[i := Agent_apply_slashing (ags ! i) amt0])
                (sl @ [k0]) = (ags', Inr sl')"
        unfolding kv0 by (auto split: sum.splits)
      have len: "j < length (ags[i := Agent_apply_slashing (ags ! i) amt0])"
        using Cons.prems(6) by simp
      from Cons.IH[OF rec dist Cons.prems(3) mem Cons.prems(5) len Cons.prems(7)] ne
      show ?thesis by simp
    qed
  qed
qed

lemma apply_slashing_frame:
  assumes "apply_slashing m ags vc p pp = (ags', r)"
  shows "length ags' = length ags \<and>
         (\<forall>j<length ags. ags' ! j = (ags ! j)\<lparr>amount_slashed := amount_slashed (ags' ! j)\<rparr>)"
proof (cases "slashing_method m = ''none'' \<or> slashing_rate m = 0")
  case True
  with assms have "ags' = ags" by (simp add: apply_slashing_def)
  then show ?thesis by simp
next
  case False
  with assms have "slashing_loop m (agents_by_id ags) p pp vc ags [] = (ags', r)"
    by (simp add: apply_slashing_def)
  then show ?thesis by (rule slashing_loop_frame)
qed

lemma apply_slashing_changed:
  assumes "apply_slashing m ags vc p pp = (ags', Inr sl)" and "ags' ! j \<noteq> ags ! j"
  shows "agent_id (ags ! j) \<in> set sl"
proof (cases "slashing_method m = ''none'' \<or> slashing_rate m = 0")
  case True
  with assms show ?thesis by (simp add: apply_slashing_def)
next
  case False
  with assms(1) have loop: "slashing_loop m (agents_by_id ags) p pp vc ags [] = (ags', Inr sl)"
    by (simp add: apply_slashing_def)
  from slashing_loop_untouched[OF loop, of j] assms(2)
  obtain kv where kv: "kv \<in> set vc" "agents_by_id ags (fst kv) = Some j"
    "supported_wrong_outcome p pp (snd kv)"
    by blast
  from slashing_loop_slashed[OF loop] kv(1,3) have "fst kv \<in> set sl" by simp
  moreover from agents_by_id_Some[OF kv(2)] have "agent_id (ags ! j) = fst kv" by simp
  ultimately show ?thesis by simp
qed


section \<open>A whole round\<close>

lemma conduct_vote_result:
  assumes "conduct_vote m ags p g = (ags', Inr (res, g'))"
  obtains vc vp where "collect_votes m ags (quality p) g [] [] = Inr (vc, vp, g')"
    and "tally_votes vc (apply_max_voting_power_cap m ags vp) (0, 0, 0)
           = Inr (yes_voting_power res, no_voting_power res, total_voting_power res)"
    and "passed res = (if total_voting_power res = 0 then False
                       else consensus_threshold m \<le> yes_voting_power res / total_voting_power res)"
    and "votes_cast res = vc"
    and "correct_outcome res = (passed res = is_objectively_good p)"
    and "correct_outcome res \<longrightarrow> ags' = ags \<and> agents_slashed res = []"
    and "\<not> correct_outcome res \<longrightarrow>
           apply_slashing m ags vc p (passed res) = (ags', Inr (agents_slashed res))"
  using assms unfolding conduct_vote_def
  by (auto simp add: Let_def split: sum.splits prod.splits if_splits)

lemma conduct_vote_state:
  assumes "conduct_vote m ags p g = (ags', r)"
  shows "ags' = ags \<or> (\<exists>vc pp r'. apply_slashing m ags vc p pp = (ags', r'))"
  using assms unfolding conduct_vote_def
  by (auto simp add: Let_def split: sum.splits prod.splits if_splits)


lemma example_collect:
  "collect_votes example_mechanism example_agents (quality example_proposal) (const_rng (1 / 2)) [] []
     = Inr ([(1, True), (2, False), (3, False)], [(1, 10), (2, 1), (3, 5)], const_rng (1 / 2))"
  by (simp add: example_mechanism_def example_agents_def example_proposal_def mk_agent_def
      vote_on_proposal_def systematic_bias_vote_def sybil_vote_def honest_vote_def
      calculate_voting_power_def get_effective_stake_def apply_sybil_resistance_def
      random_random_const_rng Let_def)

lemma example_slashing:
  "apply_slashing example_mechanism example_agents [(1, True), (2, False), (3, False)]
     example_proposal True = (example_agents_after, Inr [1])"
  by (simp add: example_mechanism_def example_agents_def example_proposal_def mk_agent_def
      example_agents_after_def apply_slashing_def agents_by_id_def supported_wrong_outcome_def
      is_objectively_good_def calculate_slash_amount_def get_effective_stake_def
      Agent_apply_slashing_def Let_def)

lemma example_round:
  "conduct_vote example_mechanism example_agents example_proposal (const_rng (1 / 2))
     = (example_agents_after, Inr (example_result, const_rng (1 / 2)))"
proof -
  have cap: "apply_max_voting_power_cap example_mechanism example_agents
               [(1, 10), (2, 1), (3, 5)] = [(1, 10), (2, 1), (3, 5)]"
    by (simp add: apply_max_voting_power_cap_def example_mechanism_def)
  have tal: "tally_votes [(1, True), (2, False), (3, False)] [(1, 10), (2, 1), (3, 5)] (0, 0, 0)
               = Inr (10, 6, 16)"
    by simp
  have thr: "consensus_threshold example_mechanism = 0.5"
    by (simp add: example_mechanism_def)
  have good: "\<not> is_objectively_good example_proposal"
    by (simp add: is_objectively_good_def example_proposal_def)
  show ?thesis
    unfolding conduct_vote_def
    by (simp add: example_collect cap tal thr good example_slashing example_result_def)
qed








text \<open>
  Claim C9. A call of \<^verbatim>\<open>conduct_vote\<close>, whether it returns or raises, leaves the list
  of agents at its length and every agent's \<^verbatim>\<open>agent_id\<close>, \<^verbatim>\<open>agent_type\<close>, \<^verbatim>\<open>stake\<close>,
  \<^verbatim>\<open>original_stake\<close> and \<^verbatim>\<open>honesty_threshold\<close> as they were. When it returns, an agent
  whose state differs has its id in \<^verbatim>\<open>agents_slashed\<close>; and when the outcome is correct,
  the slashing method is \<^verbatim>\<open>none\<close> or the slashing rate is 0, no agent's state differs.
\<close>

theorem C9_frame:
  assumes "conduct_vote m ags p g = (ags', r)"
  shows "length ags' = length ags \<and>
         (\<forall>j<length ags.
            agent_id (ags' ! j) = agent_id (ags ! j) \<and>
            agent_type (ags' ! j) = agent_type (ags ! j) \<and>
            stake (ags' ! j) = stake (ags ! j) \<and>
            original_stake (ags' ! j) = original_stake (ags ! j) \<and>
            honesty_threshold (ags' ! j) = honesty_threshold (ags ! j)) \<and>
         (\<forall>res g'. r = Inr (res, g') \<longrightarrow>
            (\<forall>j<length ags. ags' ! j \<noteq> ags ! j \<longrightarrow>
               agent_id (ags ! j) \<in> set (agents_slashed res)) \<and>
            (correct_outcome res \<or> slashing_method m = ''none'' \<or> slashing_rate m = 0 \<longrightarrow>
               ags' = ags))"
proof -
  have fr: "length ags' = length ags \<and>
         (\<forall>j<length ags. ags' ! j = (ags ! j)\<lparr>amount_slashed := amount_slashed (ags' ! j)\<rparr>)"
    using conduct_vote_state[OF assms] apply_slashing_frame by auto
  have fields: "agent_id (ags' ! j) = agent_id (ags ! j) \<and>
            agent_type (ags' ! j) = agent_type (ags ! j) \<and>
            stake (ags' ! j) = stake (ags ! j) \<and>
            original_stake (ags' ! j) = original_stake (ags ! j) \<and>
            honesty_threshold (ags' ! j) = honesty_threshold (ags ! j)"
    if "j < length ags" for j
  proof -
    from fr that
    have e: "ags' ! j = (ags ! j)\<lparr>amount_slashed := amount_slashed (ags' ! j)\<rparr>" by blast
    show ?thesis by (subst e, simp)+
  qed
  have res: "(\<forall>j<length ags. ags' ! j \<noteq> ags ! j \<longrightarrow>
               agent_id (ags ! j) \<in> set (agents_slashed res)) \<and>
            (correct_outcome res \<or> slashing_method m = ''none'' \<or> slashing_rate m = 0 \<longrightarrow>
               ags' = ags)"
    if r: "r = Inr (res, g')" for res g'
  proof -
    from assms r have cv: "conduct_vote m ags p g = (ags', Inr (res, g'))" by simp
    from cv obtain vc where
      ok: "correct_outcome res \<longrightarrow> ags' = ags \<and> agents_slashed res = []" and
      wrong: "\<not> correct_outcome res \<longrightarrow>
                apply_slashing m ags vc p (passed res) = (ags', Inr (agents_slashed res))"
      by (rule conduct_vote_result)
    show ?thesis
    proof (cases "correct_outcome res")
      case True
      with ok have "ags' = ags" by simp
      then show ?thesis by simp
    next
      case False
      with wrong have
        sl: "apply_slashing m ags vc p (passed res) = (ags', Inr (agents_slashed res))"
        by simp
      have "ags' = ags" if "slashing_method m = ''none'' \<or> slashing_rate m = 0"
        using sl that by (simp add: apply_slashing_def)
      with apply_slashing_changed[OF sl] False show ?thesis by blast
    qed
  qed
  from fr fields res show ?thesis by blast
qed

text \<open>
  The example round changes the first agent only, whose id is the one reported.
\<close>

theorem C9_witness:
  "conduct_vote example_mechanism example_agents example_proposal (const_rng (1 / 2))
     = (example_agents_after, Inr (example_result, const_rng (1 / 2))) \<and>
   length example_agents_after = length example_agents \<and>
   stake (example_agents_after ! 0) = stake (example_agents ! 0) \<and>
   example_agents_after ! 0 \<noteq> example_agents ! 0 \<and>
   agent_id (example_agents ! 0) \<in> set (agents_slashed example_result) \<and>
   example_agents_after ! 1 = example_agents ! 1 \<and>
   example_agents_after ! 2 = example_agents ! 2"
  using C9_frame[OF example_round] example_round
  by (simp add: example_agents_def example_agents_after_def example_result_def mk_agent_def)

text \<open>
  Claim C2. Let \<^verbatim>\<open>conduct_vote\<close> return for agents with distinct ids. If the outcome
  is incorrect, the slashing method is not \<^verbatim>\<open>none\<close> and the rate is positive, then for
  every agent, with \<open>vote\<close> its entry in \<^verbatim>\<open>votes_cast\<close>: its id is in \<^verbatim>\<open>agents_slashed\<close>
  iff (passed and the proposal is bad and it voted YES) or (failed and the proposal is
  good and it voted NO); in that case the agent is the result of \<^verbatim>\<open>Agent.apply_slashing\<close>
  with the base penalty \<open>effective_stake * slashing_rate\<close> times the method multiplier,
  otherwise it is unchanged; and for an agent with positive effective stake, positive
  original stake and \<^verbatim>\<open>amount_slashed\<close> not negative, \<^verbatim>\<open>amount_slashed\<close> has strictly
  increased iff that condition holds. If the outcome is correct, the method is \<^verbatim>\<open>none\<close>
  or the rate is 0, the agents are unchanged and \<^verbatim>\<open>agents_slashed\<close> is empty.
\<close>

theorem C2_who_is_slashed:
  assumes cv: "conduct_vote m ags p g = (ags', Inr (res, g'))"
    and dist: "distinct (map agent_id ags)"
  shows "(\<not> correct_outcome res \<and> slashing_method m \<noteq> ''none'' \<and> 0 < slashing_rate m \<longrightarrow>
           (\<forall>j<length ags. \<exists>vote.
              map_of (votes_cast res) (agent_id (ags ! j)) = Some vote \<and>
              (agent_id (ags ! j) \<in> set (agents_slashed res) \<longleftrightarrow>
                 (passed res \<and> \<not> is_objectively_good p \<and> vote) \<or>
                 (\<not> passed res \<and> is_objectively_good p \<and> \<not> vote)) \<and>
              ((passed res \<and> \<not> is_objectively_good p \<and> vote) \<or>
               (\<not> passed res \<and> is_objectively_good p \<and> \<not> vote) \<longrightarrow>
                 ags' ! j = Agent_apply_slashing (ags ! j)
                   (get_effective_stake (ags ! j) * slashing_rate m * spec_method_multiplier m (ags ! j))) \<and>
              (\<not> ((passed res \<and> \<not> is_objectively_good p \<and> vote) \<or>
                  (\<not> passed res \<and> is_objectively_good p \<and> \<not> vote)) \<longrightarrow>
                 ags' ! j = ags ! j) \<and>
              (0 < get_effective_stake (ags ! j) \<and> 0 < original_stake (ags ! j) \<and>
               0 \<le> amount_slashed (ags ! j) \<longrightarrow>
                 (amount_slashed (ags ! j) < amount_slashed (ags' ! j) \<longleftrightarrow>
                    (passed res \<and> \<not> is_objectively_good p \<and> vote) \<or>
                    (\<not> passed res \<and> is_objectively_good p \<and> \<not> vote))))) \<and>
         (correct_outcome res \<or> slashing_method m = ''none'' \<or> slashing_rate m = 0 \<longrightarrow>
            ags' = ags \<and> agents_slashed res = [])"
proof -
  from cv obtain vc vp where
    col: "collect_votes m ags (quality p) g [] [] = Inr (vc, vp, g')" and
    vc: "votes_cast res = vc" and
    ok: "correct_outcome res \<longrightarrow> ags' = ags \<and> agents_slashed res = []" and
    wrong: "\<not> correct_outcome res \<longrightarrow>
              apply_slashing m ags vc p (passed res) = (ags', Inr (agents_slashed res))"
    by (rule conduct_vote_result)
  from collect_votes_initial[OF col] have ids: "fst ` set vc = agent_id ` set ags"
    and dvc: "distinct (map fst vc)" by blast+
  have part2: "ags' = ags \<and> agents_slashed res = []"
    if "correct_outcome res \<or> slashing_method m = ''none'' \<or> slashing_rate m = 0"
    using that ok wrong by (auto simp add: apply_slashing_def)
  have part1: "\<exists>vote.
              map_of (votes_cast res) (agent_id (ags ! j)) = Some vote \<and>
              (agent_id (ags ! j) \<in> set (agents_slashed res) \<longleftrightarrow>
                 (passed res \<and> \<not> is_objectively_good p \<and> vote) \<or>
                 (\<not> passed res \<and> is_objectively_good p \<and> \<not> vote)) \<and>
              ((passed res \<and> \<not> is_objectively_good p \<and> vote) \<or>
               (\<not> passed res \<and> is_objectively_good p \<and> \<not> vote) \<longrightarrow>
                 ags' ! j = Agent_apply_slashing (ags ! j)
                   (get_effective_stake (ags ! j) * slashing_rate m * spec_method_multiplier m (ags ! j))) \<and>
              (\<not> ((passed res \<and> \<not> is_objectively_good p \<and> vote) \<or>
                  (\<not> passed res \<and> is_objectively_good p \<and> \<not> vote)) \<longrightarrow>
                 ags' ! j = ags ! j) \<and>
              (0 < get_effective_stake (ags ! j) \<and> 0 < original_stake (ags ! j) \<and>
               0 \<le> amount_slashed (ags ! j) \<longrightarrow>
                 (amount_slashed (ags ! j) < amount_slashed (ags' ! j) \<longleftrightarrow>
                    (passed res \<and> \<not> is_objectively_good p \<and> vote) \<or>
                    (\<not> passed res \<and> is_objectively_good p \<and> \<not> vote)))"
    if nc: "\<not> correct_outcome res" and en: "slashing_method m \<noteq> ''none''"
      and rate: "0 < slashing_rate m" and j: "j < length ags"
    for j
  proof -
    let ?a = "ags ! j"
    let ?k = "agent_id ?a"
    let ?d = "agents_by_id ags"
    let ?amt = "get_effective_stake ?a * slashing_rate m * spec_method_multiplier m ?a"
    from wrong nc en rate have
      loop: "slashing_loop m ?d p (passed res) vc ags [] = (ags', Inr (agents_slashed res))"
      by (simp add: apply_slashing_def)
    have dj: "?d ?k = Some j" using dist j by (rule agents_by_id_distinct)
    have inj: "\<forall>k k' i. ?d k = Some i \<and> ?d k' = Some i \<longrightarrow> k = k'"
      using agents_by_id_Some by blast
    have "?k \<in> fst ` set vc" using ids j by simp
    then obtain vote where mem: "(?k, vote) \<in> set vc" by auto
    with dvc have look: "map_of vc ?k = Some vote" by simp
    have swo: "supported_wrong_outcome p (passed res) v \<longleftrightarrow>
                 (passed res \<and> \<not> is_objectively_good p \<and> v) \<or>
                 (\<not> passed res \<and> is_objectively_good p \<and> \<not> v)" for v
      by (simp add: supported_wrong_outcome_def)
    have unique: "v = vote" if "(?k, v) \<in> set vc" for v
      using that dvc look by simp
    have listed: "?k \<in> set (agents_slashed res) \<longleftrightarrow> supported_wrong_outcome p (passed res) vote"
    proof
      assume "?k \<in> set (agents_slashed res)"
      then obtain v where "(?k, v) \<in> set vc" "supported_wrong_outcome p (passed res) v"
        using slashing_loop_slashed[OF loop] by auto
      then show "supported_wrong_outcome p (passed res) vote"
        using unique[of v] by simp
    next
      assume "supported_wrong_outcome p (passed res) vote"
      with mem show "?k \<in> set (agents_slashed res)"
        using slashing_loop_slashed[OF loop] by force
    qed
    have hit: "ags' ! j = Agent_apply_slashing ?a ?amt"
      if s: "supported_wrong_outcome p (passed res) vote"
    proof -
      from slashing_loop_touched[OF loop dvc inj mem dj j s] obtain amt where
        amt: "calculate_slash_amount m ?a = Inr amt" and
        upd: "ags' ! j = Agent_apply_slashing ?a amt"
        by blast
      from calculate_slash_amount_multiplier[OF amt rate] upd show ?thesis by simp
    qed
    have miss: "ags' ! j = ?a" if s: "\<not> supported_wrong_outcome p (passed res) vote"
    proof (rule slashing_loop_untouched[OF loop])
      show "\<forall>kv\<in>set vc. ?d (fst kv) = Some j \<longrightarrow>
              \<not> supported_wrong_outcome p (passed res) (snd kv)"
      proof (intro ballI impI)
        fix kv assume kv: "kv \<in> set vc" and dkv: "?d (fst kv) = Some j"
        from agents_by_id_Some[OF dkv] have "fst kv = ?k" by simp
        with kv have "(?k, snd kv) \<in> set vc" by (metis prod.collapse)
        with unique s show "\<not> supported_wrong_outcome p (passed res) (snd kv)" by blast
      qed
    qed
    have strict: "amount_slashed ?a < amount_slashed (ags' ! j) \<longleftrightarrow>
                    supported_wrong_outcome p (passed res) vote"
      if "0 < get_effective_stake ?a \<and> 0 < original_stake ?a \<and> 0 \<le> amount_slashed ?a"
    proof (cases "supported_wrong_outcome p (passed res) vote")
      case True
      with hit slashing_strict[OF rate, of ?a] that show ?thesis by simp
    next
      case False
      with miss show ?thesis by simp
    qed
    from look listed hit miss strict show ?thesis
      unfolding vc swo by blast
  qed
  from part1 part2 show ?thesis by blast
qed

text \<open>
  The example round: the proposal is bad and passes; the first agent voted YES and is
  slashed, the second voted NO and is not.
\<close>

theorem C2_witness:
  "conduct_vote example_mechanism example_agents example_proposal (const_rng (1 / 2))
     = (example_agents_after, Inr (example_result, const_rng (1 / 2))) \<and>
   distinct (map agent_id example_agents) \<and>
   \<not> correct_outcome example_result \<and>
   slashing_method example_mechanism \<noteq> ''none'' \<and> 0 < slashing_rate example_mechanism \<and>
   passed example_result \<and> \<not> is_objectively_good example_proposal \<and>
   map_of (votes_cast example_result) (agent_id (example_agents ! 0)) = Some True \<and>
   agent_id (example_agents ! 0) \<in> set (agents_slashed example_result) \<and>
   amount_slashed (example_agents ! 0) < amount_slashed (example_agents_after ! 0) \<and>
   map_of (votes_cast example_result) (agent_id (example_agents ! 1)) = Some False \<and>
   agent_id (example_agents ! 1) \<notin> set (agents_slashed example_result) \<and>
   example_agents_after ! 1 = example_agents ! 1"
  using C2_who_is_slashed[OF example_round] example_round
  by (simp add: example_agents_def example_agents_after_def example_result_def mk_agent_def
      example_mechanism_def example_proposal_def is_objectively_good_def)

end
